theory Spec2Isabelle
  imports Main "HOL-Library.Sublist"
begin


section \<open>The architecture diagram script\<close>

text \<open>
  \<^verbatim>\<open>asset/reference/generate_architecture.py\<close> builds one diagram: inside a
  \<^verbatim>\<open>with Diagram(...)\<close> block it creates nodes, some of them inside nested
  \<^verbatim>\<open>with Cluster(...)\<close> blocks, and connects them with
  \<^verbatim>\<open>a >> Edge(...) >> b\<close>. Each Python variable bound to a node is a
  constructor of \<open>var\<close>; a node keeps the icon class it was made with, its label and the
  clusters enclosing it, outermost first.
\<close>

subsection \<open>Nodes\<close>

datatype icon = Rack | Grafana | Storage | Ubuntu

datatype var =
    menubar | menuview | settings_view
  | settings_vm | notif_vm
  | eventbus | scheduler | notif_mgr | session_mgr | err_reporter | dep_container
  | file_watcher | log_buffer | log_parser | log_truncator
  | ai_detector | task_detector | dev_detector | fp_reducer
  | ipc_client | cli_service | process_mon | shell_hooks
  | json_storage | lru_cache | user_defaults
  | logger | perf_monitor | constants
  | ghostty | log_file | macos_notif

record node =
  nvar :: var
  nicon :: icon
  nlabel :: string
  nclusters :: "string list"

definition nl :: string where
  "nl = [CHR 0x0A]"

definition mk :: "string list \<Rightarrow> var \<Rightarrow> icon \<Rightarrow> string \<Rightarrow> node" where
  "mk cl v i l = \<lparr>nvar = v, nicon = i, nlabel = l, nclusters = cl\<rparr>"

definition app :: string where
  "app = ''macOS Menubar App''"

text \<open>The nodes in the order the script creates them (lines 46 to 94).\<close>

definition script_nodes :: "node list" where
  "script_nodes =
    [ mk [app, ''Views / UI Layer''] menubar Rack ''MenuBarController'',
      mk [app, ''Views / UI Layer''] menuview Rack ''MenuBarView'',
      mk [app, ''Views / UI Layer''] settings_view Rack ''SettingsView'',
      mk [app, ''ViewModels''] settings_vm Rack ''SettingsViewModel'',
      mk [app, ''ViewModels''] notif_vm Rack ''NotificationListVM'',
      mk [app, ''Core Services''] eventbus Grafana (''EventBus'' @ nl @ ''(Combine)''),
      mk [app, ''Core Services''] scheduler Rack (''BackgroundTask'' @ nl @ ''Scheduler''),
      mk [app, ''Core Services''] notif_mgr Rack (''Notification'' @ nl @ ''Manager''),
      mk [app, ''Core Services''] session_mgr Rack (''Session'' @ nl @ ''Manager''),
      mk [app, ''Core Services''] err_reporter Rack (''Error'' @ nl @ ''Reporter''),
      mk [app, ''Core Services''] dep_container Rack (''Dependency'' @ nl @ ''Container''),
      mk [app, ''Log Processing Pipeline''] file_watcher Rack (''FileWatcher'' @ nl @ ''(FSEvents)''),
      mk [app, ''Log Processing Pipeline''] log_buffer Rack ''LogBuffer'',
      mk [app, ''Log Processing Pipeline''] log_parser Rack ''LogFileParser'',
      mk [app, ''Log Processing Pipeline''] log_truncator Rack (''LogFile'' @ nl @ ''Truncator''),
      mk [app, ''Event Detection''] ai_detector Rack (''AI Response'' @ nl @ ''Detector''),
      mk [app, ''Event Detection''] task_detector Rack (''Task Completion'' @ nl @ ''Detector''),
      mk [app, ''Event Detection''] dev_detector Rack (''Dev Workflow'' @ nl @ ''Parser''),
      mk [app, ''Event Detection''] fp_reducer Rack (''FalsePositive'' @ nl @ ''Reducer''),
      mk [app, ''Ghostty Integration''] ipc_client Rack (''GhosttyIPC'' @ nl @ ''Client''),
      mk [app, ''Ghostty Integration''] cli_service Rack (''GhosttyCli'' @ nl @ ''Service''),
      mk [app, ''Ghostty Integration''] process_mon Rack (''Process'' @ nl @ ''Monitor''),
      mk [app, ''Ghostty Integration''] shell_hooks Rack (''ShellHook'' @ nl @ ''Installer''),
      mk [app, ''Data / Storage''] json_storage Storage (''JSONStorage'' @ nl @ ''Manager''),
      mk [app, ''Data / Storage''] lru_cache Storage ''LRU Cache'',
      mk [app, ''Data / Storage''] user_defaults Storage ''UserDefaults'',
      mk [app, ''Utilities''] logger Rack (''Log'' @ nl @ ''(os.log)''),
      mk [app, ''Utilities''] perf_monitor Rack (''Performance'' @ nl @ ''Monitor''),
      mk [app, ''Utilities''] constants Rack ''Constants'',
      mk [] ghostty Ubuntu (''Ghostty'' @ nl @ ''Terminal''),
      mk [] log_file Storage (''~/.config/onibi/'' @ nl @ ''terminal.log''),
      mk [] macos_notif Rack (''macOS'' @ nl @ ''Notification Center'') ]"

subsection \<open>Edges\<close>

text \<open>
  \<^verbatim>\<open>a >> Edge(label=l, color=c, style=s) >> b\<close> adds one forward edge from
  \<open>a\<close> to \<open>b\<close>; a keyword the call leaves out is \<open>None\<close>.
\<close>

record edge =
  src :: var
  dst :: var
  elabel :: "string option"
  color :: "string option"
  style :: "string option"

definition connect :: "var \<Rightarrow> string option \<Rightarrow> string option \<Rightarrow> string option \<Rightarrow> var \<Rightarrow> edge" where
  "connect a l c s b = \<lparr>src = a, dst = b, elabel = l, color = c, style = s\<rparr>"

definition red :: "string option" where "red = Some ''#e94560''"
definition navy :: "string option" where "navy = Some ''#0f3460''"
definition purple :: "string option" where "purple = Some ''#533483''"
definition grey :: "string option" where "grey = Some ''#555577''"
definition dashed :: "string option" where "dashed = Some ''dashed''"

text \<open>The edges in the order of the script's statements (lines 97 to 150).\<close>

definition script_edges :: "edge list" where
  "script_edges =
    [ connect ghostty (Some ''shell hooks write'') red None log_file,
      connect shell_hooks (Some ''installs hooks'') red dashed ghostty,
      connect log_file (Some ''FSEvents'') navy None file_watcher,
      connect file_watcher None navy None log_buffer,
      connect log_buffer None navy None log_parser,
      connect log_truncator (Some ''rotate'') purple dashed log_file,
      connect scheduler None red None file_watcher,
      connect scheduler None red None log_buffer,
      connect scheduler None red None log_parser,
      connect log_parser None navy None ai_detector,
      connect log_parser None navy None task_detector,
      connect log_parser None navy None dev_detector,
      connect ai_detector None purple None fp_reducer,
      connect task_detector None purple None fp_reducer,
      connect dev_detector None purple None fp_reducer,
      connect fp_reducer (Some ''publish'') red None eventbus,
      connect scheduler (Some ''events'') red None eventbus,
      connect eventbus None red None notif_mgr,
      connect eventbus None red None session_mgr,
      connect eventbus None red None menubar,
      connect eventbus None red dashed settings_vm,
      connect notif_mgr (Some ''UNNotification'') purple None macos_notif,
      connect ipc_client None navy None cli_service,
      connect process_mon (Some ''NSWorkspace'') navy None ipc_client,
      connect scheduler (Some ''append'') purple dashed json_storage,
      connect scheduler None purple dashed lru_cache,
      connect settings_vm None purple dashed user_defaults,
      connect menubar None navy None menuview,
      connect settings_view None navy None settings_vm,
      connect err_reporter (Some ''os.log'') purple dashed logger,
      connect dep_container None grey dashed eventbus,
      connect dep_container None grey dashed session_mgr,
      connect dep_container None grey dashed notif_mgr,
      connect dep_container None grey dashed err_reporter ]"

definition arcs :: "edge list \<Rightarrow> (var \<times> var) list" where
  "arcs es = map (\<lambda>e. (src e, dst e)) es"

definition out_of :: "var \<Rightarrow> edge list \<Rightarrow> var list" where
  "out_of v es = map dst (filter (\<lambda>e. src e = v) es)"

definition into :: "var \<Rightarrow> edge list \<Rightarrow> var list" where
  "into v es = map src (filter (\<lambda>e. dst e = v) es)"

definition label_of :: "var \<Rightarrow> node list \<Rightarrow> string option" where
  "label_of v ns = map_option nlabel (find (\<lambda>n. nvar n = v) ns)"

definition detectors :: "var list" where
  "detectors = [ai_detector, task_detector, dev_detector]"

subsection \<open>Path functions of the script's platform\<close>

text \<open>
  The script calls \<^verbatim>\<open>os.path.abspath\<close>, \<^verbatim>\<open>os.path.dirname\<close> and
  \<^verbatim>\<open>os.path.join\<close>. They are modelled as the POSIX implementation of the Python
  standard library computes them, on byte strings; the working directory that
  \<^verbatim>\<open>abspath\<close> reads is an argument.
\<close>

fun split_on :: "char \<Rightarrow> string \<Rightarrow> string list" where
  "split_on c [] = [[]]"
| "split_on c (x # xs) =
     (if x = c then [] # split_on c xs
      else (case split_on c xs of [] \<Rightarrow> [[x]] | y # ys \<Rightarrow> (x # y) # ys))"

fun join_with :: "string \<Rightarrow> string list \<Rightarrow> string" where
  "join_with sep [] = []"
| "join_with sep [x] = x"
| "join_with sep (x # y # ys) = x @ sep @ join_with sep (y # ys)"

definition isabs :: "string \<Rightarrow> bool" where
  "isabs s = prefix ''/'' s"

definition join :: "string \<Rightarrow> string \<Rightarrow> string" where
  "join a b =
     (if prefix ''/'' b then b
      else if a = [] \<or> suffix ''/'' a then a @ b
      else a @ ''/'' @ b)"

definition rstrip :: "char \<Rightarrow> string \<Rightarrow> string" where
  "rstrip c s = rev (dropWhile (\<lambda>x. x = c) (rev s))"

definition dirname :: "string \<Rightarrow> string" where
  "dirname p =
     (let i = length p - length (takeWhile (\<lambda>x. x \<noteq> CHR ''/'') (rev p));
          head = take i p
      in if head \<noteq> [] \<and> head \<noteq> replicate (length head) (CHR ''/'')
         then rstrip (CHR ''/'') head else head)"

definition norm_step :: "nat \<Rightarrow> string list \<Rightarrow> string \<Rightarrow> string list" where
  "norm_step initial_slashes new_comps cmp =
     (if cmp = [] \<or> cmp = ''.'' then new_comps
      else if cmp \<noteq> ''..'' \<or> (initial_slashes = 0 \<and> new_comps = [])
              \<or> (new_comps \<noteq> [] \<and> last new_comps = ''..'')
           then new_comps @ [cmp]
      else if new_comps \<noteq> [] then butlast new_comps
      else new_comps)"

definition normpath :: "string \<Rightarrow> string" where
  "normpath path =
     (if path = [] then ''.''
      else
        let initial_slashes =
              (if prefix ''/'' path
               then (if prefix ''//'' path \<and> \<not> prefix ''///'' path then 2 else 1)
               else (0::nat));
            comps = foldl (norm_step initial_slashes) [] (split_on (CHR ''/'') path);
            p = replicate initial_slashes (CHR ''/'') @ join_with ''/'' comps
        in if p = [] then ''.'' else p)"

definition abspath :: "string \<Rightarrow> string \<Rightarrow> string" where
  "abspath cwd path = normpath (if \<not> isabs path then join cwd path else path)"

subsection \<open>The script as a function of its environment\<close>

text \<open>
  What a run could depend on: the working directory, the path in \<^verbatim>\<open>__file__\<close>, the
  command line, the environment variables and a source of random numbers. The script
  reads the first two only, for the output file name.
\<close>

record env =
  cwd :: string
  script_file :: string
  argv :: "string list"
  environ :: "(string \<times> string) list"
  seed :: nat

type_synonym attrs = "(string \<times> string) list"

definition graph_attr :: attrs where
  "graph_attr = [(''fontsize'', ''28''), (''fontname'', ''Helvetica''), (''pad'', ''0.8''),
                 (''ranksep'', ''1.2''), (''nodesep'', ''0.8'')]"

definition node_attr :: attrs where
  "node_attr = [(''fontsize'', ''13''), (''fontname'', ''Helvetica'')]"

definition edge_attr :: attrs where
  "edge_attr = [(''fontsize'', ''11''), (''fontname'', ''Helvetica'')]"

definition cluster_attr :: attrs where
  "cluster_attr = [(''fontsize'', ''16''), (''fontname'', ''Helvetica Bold''),
                   (''style'', ''rounded''), (''penwidth'', ''2'')]"

text \<open>The clusters in the order the script opens them, each with the attributes it passes.\<close>

definition script_clusters :: "(string list \<times> attrs) list" where
  "script_clusters =
    [ ([app], cluster_attr),
      ([app, ''Views / UI Layer''], cluster_attr),
      ([app, ''ViewModels''], cluster_attr),
      ([app, ''Core Services''], cluster_attr),
      ([app, ''Log Processing Pipeline''], cluster_attr),
      ([app, ''Event Detection''], cluster_attr),
      ([app, ''Ghostty Integration''], cluster_attr),
      ([app, ''Data / Storage''], cluster_attr),
      ([app, ''Utilities''], cluster_attr) ]"

record diagram =
  name :: string
  filename :: string
  outformat :: string
  show_arg :: bool
  direction :: string
  d_graph_attr :: attrs
  d_node_attr :: attrs
  d_edge_attr :: attrs
  clusters :: "(string list \<times> attrs) list"
  nodes :: "node list"
  edges :: "edge list"

definition out :: "env \<Rightarrow> string" where
  "out e = dirname (abspath (cwd e) (script_file e))"

definition run :: "env \<Rightarrow> diagram" where
  "run e =
     \<lparr> name = ''Onibi Architecture'',
       filename = join (out e) ''architecture'',
       outformat = ''png'',
       show_arg = False,
       direction = ''TB'',
       d_graph_attr = graph_attr,
       d_node_attr = node_attr,
       d_edge_attr = edge_attr,
       clusters = script_clusters,
       nodes = script_nodes,
       edges = script_edges \<rparr>"



definition diagram_structure :: "diagram \<Rightarrow> (string list \<times> attrs) list \<times> node list \<times> edge list" where
  "diagram_structure d = (clusters d, nodes d, edges d)"

subsection \<open>Where a path leads\<close>





definition pipeline_vars :: "var list" where
  "pipeline_vars = [log_file, file_watcher, log_buffer, log_parser,
                    ai_detector, task_detector, dev_detector, fp_reducer, eventbus]"


subsection \<open>The graph handed to the renderer\<close>

text \<open>
  The diagram library gives every node it creates an identifier drawn at random, and the
  edges of the graph it hands to the renderer join those identifiers. The library is not
  part of the repository, so its generator is a parameter: \<open>gen s k\<close> is the \<open>k\<close>-th
  identifier drawn in a run whose random state is \<open>s\<close>. The script creates its nodes one
  after the other, so the node bound to a variable carries the identifier of its place in
  the order of creation.
\<close>

record dot_node =
  dn_id :: string
  dn_label :: string
  dn_icon :: icon
  dn_clusters :: "string list"

record dot_edge =
  de_tail :: string
  de_head :: string
  de_label :: "string option"
  de_color :: "string option"
  de_style :: "string option"

record dot_graph =
  g_clusters :: "(string list \<times> attrs) list"
  g_nodes :: "dot_node list"
  g_edges :: "dot_edge list"

definition created :: "var \<Rightarrow> node list \<Rightarrow> nat" where
  "created v ns = length (takeWhile (\<lambda>n. nvar n \<noteq> v) ns)"

definition dot :: "(nat \<Rightarrow> nat \<Rightarrow> string) \<Rightarrow> env \<Rightarrow> dot_graph" where
  "dot gen e =
     (let d = run e;
          ident = (\<lambda>v. gen (seed e) (created v (nodes d)))
      in \<lparr> g_clusters = clusters d,
            g_nodes = map (\<lambda>n. \<lparr>dn_id = ident (nvar n), dn_label = nlabel n,
                                  dn_icon = nicon n, dn_clusters = nclusters n\<rparr>) (nodes d),
            g_edges = map (\<lambda>x. \<lparr>de_tail = ident (src x), de_head = ident (dst x),
                                  de_label = elabel x, de_color = color x,
                                  de_style = style x\<rparr>) (edges d) \<rparr>)"

text \<open>
  The structure of such a graph with the identifiers read away: its clusters, its nodes
  as label, icon and enclosing clusters, and each edge with the labels of the nodes its
  two identifiers name.
\<close>

definition label_at :: "dot_graph \<Rightarrow> string \<Rightarrow> string option" where
  "label_at g i = map_option dn_label (find (\<lambda>n. dn_id n = i) (g_nodes g))"

type_synonym labelled_edge =
  "string option \<times> string option \<times> string option \<times> string option \<times> string option"

definition labelled ::
  "dot_graph \<Rightarrow> (string list \<times> attrs) list \<times> (string \<times> icon \<times> string list) list \<times> labelled_edge list" where
  "labelled g =
     (g_clusters g,
      map (\<lambda>n. (dn_label n, dn_icon n, dn_clusters n)) (g_nodes g),
      map (\<lambda>x. (label_at g (de_tail x), label_at g (de_head x),
                 de_label x, de_color x, de_style x)) (g_edges g))"

definition script_labelled ::
  "(string list \<times> attrs) list \<times> (string \<times> icon \<times> string list) list \<times> labelled_edge list" where
  "script_labelled =
     (script_clusters,
      map (\<lambda>n. (nlabel n, nicon n, nclusters n)) script_nodes,
      map (\<lambda>x. (label_of (src x) script_nodes, label_of (dst x) script_nodes,
                 elabel x, color x, style x)) script_edges)"

section \<open>The tail buffer of the log pipeline\<close>

text \<open>
  The repository holds the diagram script only; the components the diagram names are not
  implemented in it. The tail buffer (\<open>LogBuffer\<close> in the diagram) is therefore laid
  down from the design text, sections 3 and 4.2. A file is its identity and its bytes;
  the line terminator is the byte LF.
\<close>

text \<open>Modelled from the spec: the watched file as the tail buffer sees it on one call
  (the file system is not part of the repository): its identity and its current content.\<close>

record watched_file =
  fid :: nat
  content :: string

text \<open>Modelled from the spec: \<open>LogLine\<close>, the raw text of one complete line plus its
  byte offset range in the file. The range is half open and takes in the terminator, so
  \<open>stop\<close> is the offset of the byte after it.\<close>

record LogLine =
  raw :: string
  start :: nat
  stop :: nat

text \<open>Modelled from the spec: \<open>Watermark\<close>, the pair of file identity and byte offset.\<close>

record Watermark =
  identity :: nat
  offset :: nat

text \<open>Modelled from the spec: the state \<open>TailBuffer\<close> owns, its watermark and the
  buffered trailing partial line.\<close>

record TailBuffer =
  watermark :: Watermark
  fragment :: string

text \<open>Modelled from the spec: the line terminator, which the design text does not name.\<close>

definition terminator :: char where
  "terminator = CHR 0x0A"

text \<open>Modelled from the spec: "split on line terminators, buffer the trailing incomplete
  fragment". \<open>scan pos cur bs\<close> reads the bytes \<open>bs\<close>; \<open>pos\<close> is the file offset where
  the line being read starts and \<open>cur\<close> the bytes of it read so far. It returns the
  complete lines and the fragment left after the last terminator.\<close>

fun scan :: "nat \<Rightarrow> string \<Rightarrow> string \<Rightarrow> LogLine list \<times> string" where
  "scan pos cur [] = ([], cur)"
| "scan pos cur (c # cs) =
     (if c = terminator
      then (let (ls, r) = scan (pos + length cur + 1) [] cs
            in (\<lparr>raw = cur, start = pos, stop = pos + length cur + 1\<rparr> # ls, r))
      else scan pos (cur @ [c]) cs)"

text \<open>Modelled from the spec: "if identity changed or size < previous watermark offset,
  treat as rotation".\<close>

definition rotated :: "TailBuffer \<Rightarrow> watched_file \<Rightarrow> bool" where
  "rotated tb f =
     (fid f \<noteq> identity (watermark tb) \<or> length (content f) < offset (watermark tb))"

text \<open>Modelled from the spec: \<open>TailBuffer.poll\<close>. On rotation it resets the watermark to
  0 on the new identity and discards the buffered partial line. Otherwise it reads the
  bytes from the watermark to the end of the file, splits them on line terminators,
  buffers the trailing incomplete fragment for the next call, and advances the watermark
  past the bytes that produced a complete line only, so the bytes of the fragment are
  read again by the next call.\<close>

definition poll :: "TailBuffer \<Rightarrow> watched_file \<Rightarrow> LogLine list \<times> TailBuffer" where
  "poll tb f =
     (if rotated tb f
      then ([], \<lparr>watermark = \<lparr>identity = fid f, offset = 0\<rparr>, fragment = []\<rparr>)
      else
        let wm = offset (watermark tb);
            new = drop wm (content f);
            (ls, r) = scan wm [] new
        in (ls, \<lparr>watermark = \<lparr>identity = fid f, offset = wm + (length new - length r)\<rparr>,
                 fragment = r\<rparr>))"

text \<open>Modelled from the spec: a tail buffer newly attached to the file with identity
  \<open>i\<close>, nothing consumed yet.\<close>

definition attach :: "nat \<Rightarrow> TailBuffer" where
  "attach i = \<lparr>watermark = \<lparr>identity = i, offset = 0\<rparr>, fragment = []\<rparr>"

text \<open>Modelled from the spec: the scheduler's ticks over a file that only grows. Before
  each tick the bytes of one element of the list are appended to the file (an empty
  element is a tick with nothing new, an element with several lines a burst), then
  \<open>poll\<close> is called once. The result lists what each tick delivered.\<close>

fun run_polls :: "nat \<Rightarrow> TailBuffer \<Rightarrow> string \<Rightarrow> string list \<Rightarrow> LogLine list list \<times> TailBuffer" where
  "run_polls i tb c [] = ([], tb)"
| "run_polls i tb c (a # as) =
     (let (ls, tb') = poll tb \<lparr>fid = i, content = c @ a\<rparr>;
          (lss, tb'') = run_polls i tb' (c @ a) as
      in (ls # lss, tb''))"

text \<open>The relation between a tail buffer and the content \<open>c\<close> it has polled so far, on
  a file of identity \<open>i\<close> that only grows: the fragment is what follows the last
  terminator of \<open>c\<close>, and the watermark stands where the fragment begins.\<close>

definition tail_inv :: "nat \<Rightarrow> TailBuffer \<Rightarrow> string \<Rightarrow> bool" where
  "tail_inv i tb c =
     (identity (watermark tb) = i \<and> fragment tb = snd (scan 0 [] c)
      \<and> offset (watermark tb) + length (fragment tb) = length c)"


section \<open>Verified properties\<close>

subsection \<open>Components of a path\<close>



lemma split_on_nonempty: "split_on c s \<noteq> []"
  by (induction s) (auto split: list.splits)








subsection \<open>The directory of a normalised path\<close>










subsection \<open>A relative path below the working directory\<close>





subsection \<open>Walking a normalised path\<close>






subsection \<open>The pipeline flow in the diagram\<close>

text \<open>
  Claim C1. In the diagram a run builds, the edges among the log file, FileWatcher,
  LogBuffer, LogFileParser, the three detectors, FalsePositiveReducer and EventBus are
  exactly the chain log file to FileWatcher to LogBuffer to LogFileParser, LogFileParser
  to each detector, each detector to FalsePositiveReducer, and FalsePositiveReducer to
  EventBus with the label publish. The only edge leaving a detector goes to the reducer,
  and no detector is among the sources of the edges into EventBus.
\<close>

theorem pipeline_flow:
  "filter (\<lambda>(a, b). a \<in> set pipeline_vars \<and> b \<in> set pipeline_vars) (arcs (edges (run e)))
     = [ (log_file, file_watcher), (file_watcher, log_buffer), (log_buffer, log_parser),
         (log_parser, ai_detector), (log_parser, task_detector), (log_parser, dev_detector),
         (ai_detector, fp_reducer), (task_detector, fp_reducer), (dev_detector, fp_reducer),
         (fp_reducer, eventbus) ]
   \<and> map (\<lambda>d. out_of d (edges (run e))) detectors = [[fp_reducer], [fp_reducer], [fp_reducer]]
   \<and> out_of fp_reducer (edges (run e)) = [eventbus]
   \<and> into eventbus (edges (run e)) = [fp_reducer, scheduler, dep_container]
   \<and> map elabel (filter (\<lambda>x. src x = fp_reducer) (edges (run e))) = [Some ''publish'']
   \<and> map (\<lambda>v. label_of v (nodes (run e))) pipeline_vars
     = [ Some (''~/.config/onibi/'' @ nl @ ''terminal.log''),
         Some (''FileWatcher'' @ nl @ ''(FSEvents)''), Some ''LogBuffer'', Some ''LogFileParser'',
         Some (''AI Response'' @ nl @ ''Detector''), Some (''Task Completion'' @ nl @ ''Detector''),
         Some (''Dev Workflow'' @ nl @ ''Parser''), Some (''FalsePositive'' @ nl @ ''Reducer''),
         Some (''EventBus'' @ nl @ ''(Combine)'') ]"
  by (simp add: run_def script_edges_def script_nodes_def connect_def mk_def arcs_def
      out_of_def into_def label_of_def detectors_def pipeline_vars_def)

theorem pipeline_flow_witness:
  "out_of fp_reducer (edges (run \<lparr>cwd = ''/tmp'', script_file = ''/repo/gen.py'',
       argv = [], environ = [], seed = 0\<rparr>)) = [eventbus]
   \<and> map (\<lambda>d. out_of d (edges (run \<lparr>cwd = ''/tmp'', script_file = ''/repo/gen.py'',
       argv = [], environ = [], seed = 0\<rparr>))) detectors
       = [[fp_reducer], [fp_reducer], [fp_reducer]]"
  using pipeline_flow[of "\<lparr>cwd = ''/tmp'', script_file = ''/repo/gen.py'',
       argv = [], environ = [], seed = 0\<rparr>"] by simp


subsection \<open>The output file\<close>



subsection \<open>Determinism\<close>

lemma created_present:
  assumes "v \<in> nvar ` set ns"
  shows "created v ns < length ns \<and> nvar (ns ! created v ns) = v"
proof -
  have ex: "\<exists>n \<in> set ns. \<not> nvar n \<noteq> v" using assms by auto
  have lt: "length (takeWhile (\<lambda>n. nvar n \<noteq> v) ns) < length ns"
    using ex by (induction ns) auto
  from nth_length_takeWhile[OF lt] lt show ?thesis by (simp add: created_def)
qed

lemma created_eq_iff:
  assumes "u \<in> nvar ` set ns" "v \<in> nvar ` set ns"
  shows "created u ns = created v ns \<longleftrightarrow> u = v"
  using created_present[OF assms(1)] created_present[OF assms(2)] by metis

lemma all_created: "v \<in> nvar ` set script_nodes"
  by (cases v) (simp_all add: script_nodes_def mk_def)

lemma find_over_map: "find P (map f xs) = map_option f (find (\<lambda>x. P (f x)) xs)"
  by (induction xs) auto

lemma label_at_ident:
  assumes inj: "inj_on (gen (seed e)) {..<length script_nodes}"
  shows "label_at (dot gen e) (gen (seed e) (created v script_nodes)) = label_of v script_nodes"
proof -
  let ?g = "gen (seed e)"
  let ?f = "\<lambda>n. \<lparr>dn_id = ?g (created (nvar n) script_nodes), dn_label = nlabel n,
                   dn_icon = nicon n, dn_clusters = nclusters n\<rparr>"
  have same: "(?g (created (nvar n) script_nodes) = ?g (created v script_nodes)) = (nvar n = v)" for n
    using inj_on_eq_iff[OF inj, of "created (nvar n) script_nodes" "created v script_nodes"]
      created_present[OF all_created] created_eq_iff[OF all_created all_created]
    by simp
  have "find (\<lambda>m. dn_id m = ?g (created v script_nodes)) (map ?f script_nodes)
          = map_option ?f (find (\<lambda>n. nvar n = v) script_nodes)"
    by (simp add: find_over_map same)
  then show ?thesis
    by (simp add: label_at_def label_of_def dot_def run_def Let_def option.map_comp comp_def)
qed

lemma labelled_dot:
  assumes "inj_on (gen (seed e)) {..<length script_nodes}"
  shows "labelled (dot gen e) = script_labelled"
proof -
  have n: "map (\<lambda>n. (dn_label n, dn_icon n, dn_clusters n)) (g_nodes (dot gen e))
             = map (\<lambda>n. (nlabel n, nicon n, nclusters n)) script_nodes"
    by (simp add: dot_def run_def Let_def comp_def)
  have ed: "map (\<lambda>x. (label_at (dot gen e) (de_tail x), label_at (dot gen e) (de_head x),
                 de_label x, de_color x, de_style x)) (g_edges (dot gen e))
             = map (\<lambda>x. (label_of (src x) script_nodes, label_of (dst x) script_nodes,
                 elabel x, color x, style x)) script_edges"
    unfolding label_at_ident[of gen e, OF assms, symmetric]
    by (simp add: dot_def[of gen e] run_def Let_def comp_def)
  have c: "g_clusters (dot gen e) = script_clusters" by (simp add: dot_def run_def Let_def)
  show ?thesis unfolding labelled_def script_labelled_def n ed c ..
qed

lemma labels_distinct: "distinct (map nlabel script_nodes)"
  by (simp add: script_nodes_def mk_def nl_def)

lemma label_of_created: "label_of v script_nodes \<noteq> None"
proof -
  obtain n where "n \<in> set script_nodes" "nvar n = v" using all_created[of v] by auto
  then have "find (\<lambda>n. nvar n = v) script_nodes \<noteq> None" by (auto simp: find_None_iff)
  then show ?thesis by (simp add: label_of_def)
qed

lemma first_ident: "dn_id (hd (g_nodes (dot gen e))) = gen (seed e) 0"
  by (simp add: dot_def run_def Let_def script_nodes_def mk_def created_def)

text \<open>
  Claim C10. Take any two runs: any working directories, script paths, command lines,
  environment variables and random states, and any generators of node identifiers, as
  long as a run does not draw the same identifier twice. The graphs they hand to the
  renderer have the same structure once the identifiers are read away: the same clusters,
  the same nodes with the same labels, and the same labelled edges between the same
  labels, namely those the statements of the script list. The labels are pairwise
  different and both ends of every edge name a node, so nothing of the structure is lost
  by reading the identifiers away. The graphs themselves differ as soon as the
  identifiers drawn do, which is the part left to the rendering library.
\<close>

theorem run_deterministic:
  assumes "inj_on (gen1 (seed e1)) {..<length script_nodes}"
      and "inj_on (gen2 (seed e2)) {..<length script_nodes}"
  shows "labelled (dot gen1 e1) = labelled (dot gen2 e2)
       \<and> labelled (dot gen1 e1) = script_labelled
       \<and> distinct (map dn_label (g_nodes (dot gen1 e1)))
       \<and> list_all (\<lambda>(a, b, x). a \<noteq> None \<and> b \<noteq> None) (snd (snd (labelled (dot gen1 e1))))
       \<and> (gen1 (seed e1) 0 \<noteq> gen2 (seed e2) 0 \<longrightarrow> dot gen1 e1 \<noteq> dot gen2 e2)"
proof -
  have a: "labelled (dot gen1 e1) = script_labelled" by (rule labelled_dot[of gen1 e1, OF assms(1)])
  have b: "labelled (dot gen2 e2) = script_labelled" by (rule labelled_dot[of gen2 e2, OF assms(2)])
  have c: "distinct (map dn_label (g_nodes (dot gen1 e1)))"
    using labels_distinct by (simp add: dot_def run_def Let_def comp_def)
  have d: "list_all (\<lambda>(a, b, x). a \<noteq> None \<and> b \<noteq> None) (snd (snd script_labelled))"
    using label_of_created by (auto simp: script_labelled_def list_all_iff)
  have e: "dot gen1 e1 \<noteq> dot gen2 e2" if "gen1 (seed e1) 0 \<noteq> gen2 (seed e2) 0"
    using that first_ident[of gen1 e1] first_ident[of gen2 e2] by auto
  from a b c d e show ?thesis by simp
qed

theorem run_deterministic_witness:
  "inj_on (\<lambda>k. replicate (Suc (7 + k)) (CHR ''a'')) {..<length script_nodes}
   \<and> inj_on (\<lambda>k. replicate (Suc k) (CHR ''b'')) {..<length script_nodes}
   \<and> labelled (dot (\<lambda>s k. replicate (Suc (s + k)) (CHR ''a''))
         \<lparr>cwd = ''/tmp'', script_file = ''/repo/gen.py'', argv = [], environ = [], seed = 7\<rparr>)
     = labelled (dot (\<lambda>s k. replicate (Suc k) (CHR ''b''))
         \<lparr>cwd = ''/home'', script_file = ''other/gen.py'', argv = [''x''],
          environ = [(''HOME'', ''/home'')], seed = 3\<rparr>)
   \<and> dot (\<lambda>s k. replicate (Suc (s + k)) (CHR ''a''))
         \<lparr>cwd = ''/tmp'', script_file = ''/repo/gen.py'', argv = [], environ = [], seed = 7\<rparr>
     \<noteq> dot (\<lambda>s k. replicate (Suc k) (CHR ''b''))
         \<lparr>cwd = ''/home'', script_file = ''other/gen.py'', argv = [''x''],
          environ = [(''HOME'', ''/home'')], seed = 3\<rparr>"
proof -
  let ?g1 = "\<lambda>s k. replicate (Suc (s + k)) (CHR ''a'')"
  let ?g2 = "\<lambda>(s::nat) k. replicate (Suc k) (CHR ''b'')"
  let ?e1 = "\<lparr>cwd = ''/tmp'', script_file = ''/repo/gen.py'', argv = [], environ = [], seed = 7\<rparr>"
  let ?e2 = "\<lparr>cwd = ''/home'', script_file = ''other/gen.py'', argv = [''x''],
          environ = [(''HOME'', ''/home'')], seed = 3\<rparr>"
  have i1: "inj_on (?g1 (seed ?e1)) {..<length script_nodes}" by (simp add: inj_on_def)
  have i2: "inj_on (?g2 (seed ?e2)) {..<length script_nodes}" by (simp add: inj_on_def)
  have ne: "?g1 (seed ?e1) 0 \<noteq> ?g2 (seed ?e2) 0" by (simp add: eval_nat_numeral)
  from run_deterministic[of ?g1 ?e1 ?g2 ?e2, OF i1 i2] ne i1 i2
  show ?thesis by simp
qed

subsection \<open>Splitting on terminators\<close>

lemma scan_Cons_terminator:
  "scan pos cur (terminator # cs) =
     (\<lparr>raw = cur, start = pos, stop = pos + length cur + 1\<rparr> # fst (scan (pos + length cur + 1) [] cs),
      snd (scan (pos + length cur + 1) [] cs))"
  by (simp add: split_def Let_def)

lemma scan_Cons_other: "c \<noteq> terminator \<Longrightarrow> scan pos cur (c # cs) = scan pos (cur @ [c]) cs"
  by simp

lemma scan_split_on:
  "map raw (fst (scan pos cur s)) @ [snd (scan pos cur s)]
     = (cur @ hd (split_on terminator s)) # tl (split_on terminator s)"
proof (induction s arbitrary: pos cur)
  case Nil
  show ?case by simp
next
  case (Cons c cs)
  show ?case
  proof (cases "c = terminator")
    case True
    have "map raw (fst (scan (pos + length cur + 1) [] cs)) @ [snd (scan (pos + length cur + 1) [] cs)]
            = split_on terminator cs"
      using Cons.IH[of "pos + length cur + 1" "[]"] split_on_nonempty[of terminator cs] by simp
    with True show ?thesis by (simp add: scan_Cons_terminator del: scan.simps)
  next
    case False
    obtain y ys where sp: "split_on terminator cs = y # ys"
      using split_on_nonempty[of terminator cs] by (cases "split_on terminator cs") auto
    with False Cons.IH[of pos "cur @ [c]"] show ?thesis by simp
  qed
qed

lemma scan_plain: "terminator \<notin> set r \<Longrightarrow> scan pos cur (r @ ys) = scan pos (cur @ r) ys"
  by (induction r arbitrary: cur) auto

lemma scan_snd_plain: "terminator \<notin> set cur \<Longrightarrow> terminator \<notin> set (snd (scan pos cur s))"
  by (induction s arbitrary: pos cur) (auto simp: split_def Let_def)

lemma scan_snd_suffix: "suffix (snd (scan pos cur s)) (cur @ s)"
proof (induction s arbitrary: pos cur)
  case Nil
  show ?case by simp
next
  case (Cons c cs)
  show ?case
  proof (cases "c = terminator")
    case True
    have "suffix (snd (scan (pos + length cur + 1) [] cs)) cs"
      using Cons.IH[of "pos + length cur + 1" "[]"] by simp
    then have "suffix (snd (scan (pos + length cur + 1) [] cs)) (cur @ c # cs)"
      by (metis suffix_Cons suffix_appendI)
    with True show ?thesis by (simp add: scan_Cons_terminator del: scan.simps)
  next
    case False
    with Cons.IH[of pos "cur @ [c]"] show ?thesis by simp
  qed
qed

lemma scan_snd_length: "length (snd (scan pos cur s)) \<le> length cur + length s"
  using suffix_length_le[OF scan_snd_suffix[of pos cur s]] by simp

lemma scan_append:
  "scan pos cur (xs @ ys) =
     (let (l1, r1) = scan pos cur xs;
          (l2, r2) = scan (pos + length cur + length xs - length r1) r1 ys
      in (l1 @ l2, r2))"
proof (induction xs arbitrary: pos cur)
  case Nil
  show ?case by simp
next
  case (Cons c cs)
  show ?case
  proof (cases "c = terminator")
    case True
    show ?thesis using True Cons.IH[of "pos + length cur + 1" "[]"]
      by (simp add: split_def Let_def add.assoc)
  next
    case False
    show ?thesis using False Cons.IH[of pos "cur @ [c]"]
      by (simp add: split_def Let_def)
  qed
qed

lemma scan_starts:
  "sorted_wrt (\<lambda>a b. start a < start b) (fst (scan pos cur s))
   \<and> (\<forall>l \<in> set (fst (scan pos cur s)). pos \<le> start l)"
proof (induction s arbitrary: pos cur)
  case Nil
  show ?case by simp
next
  case (Cons c cs)
  show ?case
  proof (cases "c = terminator")
    case True
    have "sorted_wrt (\<lambda>a b. start a < start b) (fst (scan (pos + length cur + 1) [] cs))"
      and "\<forall>l \<in> set (fst (scan (pos + length cur + 1) [] cs)). pos + length cur + 1 \<le> start l"
      using Cons.IH[of "pos + length cur + 1" "[]"] by simp_all
    with True show ?thesis
      by (fastforce simp add: scan_Cons_terminator simp del: scan.simps)
  next
    case False
    with Cons.IH[of pos "cur @ [c]"] show ?thesis by simp
  qed
qed

lemma scan_ranges:
  assumes "length pre = pos" and "l \<in> set (fst (scan pos cur s))"
  shows "take (stop l - start l) (drop (start l) (pre @ cur @ s)) = raw l @ [terminator]"
  using assms
proof (induction s arbitrary: pos cur pre)
  case Nil
  then show ?case by simp
next
  case (Cons c cs)
  show ?case
  proof (cases "c = terminator")
    case True
    from Cons.prems(2) True
    consider "l = \<lparr>raw = cur, start = pos, stop = pos + length cur + 1\<rparr>"
      | "l \<in> set (fst (scan (pos + length cur + 1) [] cs))"
      by (auto simp add: scan_Cons_terminator simp del: scan.simps)
    then show ?thesis
    proof cases
      case 1
      with True Cons.prems(1) show ?thesis by simp
    next
      case 2
      have "length (pre @ cur @ [terminator]) = pos + length cur + 1"
        using Cons.prems(1) by simp
      from Cons.IH[OF this 2] True show ?thesis by simp
    qed
  next
    case False
    with Cons.prems(2) have "l \<in> set (fst (scan pos (cur @ [c]) cs))" by simp
    from Cons.IH[OF Cons.prems(1) this] show ?thesis by simp
  qed
qed

lemma scan_distinct: "distinct (fst (scan pos cur s))"
proof -
  have "sorted_wrt (\<lambda>a b. start a < start b) (fst (scan pos cur s))"
    using scan_starts by blast
  then have "sorted_wrt (\<lambda>a b. a \<noteq> b) (fst (scan pos cur s))"
    by (rule sorted_wrt_mono_rel[rotated]) auto
  then show ?thesis by (simp add: distinct_conv_nth sorted_wrt_iff_nth_less)
       (metis nat_neq_iff)
qed

subsection \<open>Polling a growing file\<close>

lemma tail_inv_attach: "tail_inv i (attach i) []"
  by (simp add: tail_inv_def attach_def)

lemma poll_append:
  assumes inv: "tail_inv i tb c" and p: "poll tb \<lparr>fid = i, content = c @ a\<rparr> = (ls, tb')"
  shows "tail_inv i tb' (c @ a) \<and> fst (scan 0 [] (c @ a)) = fst (scan 0 [] c) @ ls"
proof -
  let ?wm = "offset (watermark tb)" and ?fr = "fragment tb"
  have id: "identity (watermark tb) = i" and fr: "?fr = snd (scan 0 [] c)"
    and len: "?wm + length ?fr = length c"
    using inv unfolding tail_inv_def by blast+
  have nrot: "\<not> rotated tb \<lparr>fid = i, content = c @ a\<rparr>"
    using id len by (simp add: rotated_def)
  have "suffix ?fr c" using scan_snd_suffix[of 0 "[]" c] fr by simp
  then obtain p where c: "c = p @ ?fr" by (auto simp: suffix_def)
  then have "length p = ?wm" using len by (metis add_right_cancel length_append)
  then have dr: "drop ?wm (c @ a) = ?fr @ a" using c by (metis append_assoc append_eq_conv_conj)
  have plain: "terminator \<notin> set ?fr"
    using scan_snd_plain[of "[]" 0 c] fr by simp
  have sc: "scan ?wm [] (?fr @ a) = scan ?wm ?fr a"
    using scan_plain[OF plain, of ?wm "[]" a] by simp
  obtain l2 r2 where s2: "scan ?wm ?fr a = (l2, r2)" by (cases "scan ?wm ?fr a")
  have wm: "?wm = 0 + length ([]::string) + length c - length (snd (scan 0 [] c))"
    using len fr by simp
  have whole: "scan 0 [] (c @ a) = (fst (scan 0 [] c) @ l2, r2)"
    using scan_append[of 0 "[]" c a] s2 fr wm by (simp add: split_def Let_def)
  have r2len: "length r2 \<le> length ?fr + length a"
    using scan_snd_length[of ?wm ?fr a] s2 by simp
  have res: "ls = l2"
    "tb' = \<lparr>watermark = \<lparr>identity = i, offset = ?wm + (length (?fr @ a) - length r2)\<rparr>, fragment = r2\<rparr>"
    using p nrot sc s2 len by (auto simp add: poll_def Let_def dr simp del: drop_append)
  show ?thesis using res whole r2len len by (simp add: tail_inv_def)
qed

lemma run_polls_append:
  assumes "tail_inv i tb c" and "run_polls i tb c as = (lss, tb')"
  shows "tail_inv i tb' (c @ concat as)
         \<and> fst (scan 0 [] (c @ concat as)) = fst (scan 0 [] c) @ concat lss"
  using assms
proof (induction as arbitrary: tb c lss tb')
  case Nil
  then show ?case by simp
next
  case (Cons a as)
  obtain ls tb1 where p: "poll tb \<lparr>fid = i, content = c @ a\<rparr> = (ls, tb1)"
    by (cases "poll tb \<lparr>fid = i, content = c @ a\<rparr>")
  obtain lss1 tb2 where r: "run_polls i tb1 (c @ a) as = (lss1, tb2)"
    by (cases "run_polls i tb1 (c @ a) as")
  from Cons.prems(2) p r have eq: "lss = ls # lss1" "tb' = tb2" by simp_all
  from poll_append[OF Cons.prems(1) p]
  have inv1: "tail_inv i tb1 (c @ a)" and d1: "fst (scan 0 [] (c @ a)) = fst (scan 0 [] c) @ ls"
    by simp_all
  from Cons.IH[OF inv1 r] eq d1 show ?case by simp
qed

lemma run_polls_take:
  "fst (run_polls i tb c (take k as)) = take k (fst (run_polls i tb c as))"
proof (induction as arbitrary: k tb c)
  case Nil
  show ?case by simp
next
  case (Cons a as)
  show ?case
  proof (cases k)
    case 0
    then show ?thesis by simp
  next
    case (Suc n)
    then show ?thesis using Cons.IH by (simp add: split_def Let_def)
  qed
qed

lemma scan_complete_lines:
  "map raw (fst (scan 0 [] s)) = butlast (split_on terminator s)"
proof -
  have "map raw (fst (scan 0 [] s)) @ [snd (scan 0 [] s)] = split_on terminator s"
    using scan_split_on[of 0 "[]" s] split_on_nonempty[of terminator s] by simp
  then show ?thesis by (metis butlast_snoc)
qed

text \<open>
  Claim C3. A tail buffer is attached to an empty file that then only grows: before each
  tick some bytes are appended and the tick polls once. Then the texts of all lines
  delivered, followed by the fragment still buffered, are the final content split on
  line terminators; no line is delivered twice; and at every tick the lines delivered so
  far are exactly the terminated lines of the content written so far, so a line is never
  delivered before its terminator and a trailing fragment only as part of its complete
  line. The offset range of each delivered line holds, in the final content, the text of
  the line followed by its terminator.
\<close>

theorem tail_delivers_content_once:
  assumes "run_polls i (attach i) [] as = (lss, tb)"
  shows "map raw (concat lss) @ [fragment tb] = split_on terminator (concat as)
       \<and> distinct (concat lss)
       \<and> (\<forall>k \<le> length as. map raw (concat (take k lss))
                               = butlast (split_on terminator (concat (take k as))))
       \<and> (\<forall>l \<in> set (concat lss).
             take (stop l - start l) (drop (start l) (concat as)) = raw l @ [terminator])"
proof -
  from run_polls_append[OF tail_inv_attach assms]
  have inv: "tail_inv i tb (concat as)" and del: "fst (scan 0 [] (concat as)) = concat lss"
    by simp_all
  have fr: "fragment tb = snd (scan 0 [] (concat as))" using inv by (simp add: tail_inv_def)
  have a: "map raw (concat lss) @ [fragment tb] = split_on terminator (concat as)"
    using scan_split_on[of 0 "[]" "concat as"] split_on_nonempty[of terminator "concat as"]
    unfolding del[symmetric] fr by simp
  have b: "distinct (concat lss)" using scan_distinct[of 0 "[]" "concat as"] del by simp
  have c: "map raw (concat (take k lss)) = butlast (split_on terminator (concat (take k as)))" for k
  proof -
    obtain lk tk where rk: "run_polls i (attach i) [] (take k as) = (lk, tk)"
      by (cases "run_polls i (attach i) [] (take k as)")
    have "lk = take k lss" using run_polls_take[of i "attach i" "[]" k as] rk assms by simp
    moreover have "fst (scan 0 [] (concat (take k as))) = concat lk"
      using run_polls_append[OF tail_inv_attach rk] by simp
    ultimately show ?thesis using scan_complete_lines[of "concat (take k as)"] by simp
  qed
  have d: "take (stop l - start l) (drop (start l) (concat as)) = raw l @ [terminator]"
    if "l \<in> set (concat lss)" for l
    using scan_ranges[of "[]" 0 l "[]" "concat as"] that del by simp
  from a b c d show ?thesis by blast
qed

theorem tail_delivers_content_once_witness:
  "run_polls 1 (attach 1) []
       [''ab'', ''c'' @ [terminator] @ ''de'', [terminator, terminator], ''x'']
     = ([[], [\<lparr>raw = ''abc'', start = 0, stop = 4\<rparr>],
         [\<lparr>raw = ''de'', start = 4, stop = 7\<rparr>, \<lparr>raw = [], start = 7, stop = 8\<rparr>], []],
        \<lparr>watermark = \<lparr>identity = 1, offset = 8\<rparr>, fragment = ''x''\<rparr>)
   \<and> map raw (concat [[], [\<lparr>raw = ''abc'', start = 0, stop = 4\<rparr>],
         [\<lparr>raw = ''de'', start = 4, stop = 7\<rparr>, \<lparr>raw = [], start = 7, stop = 8\<rparr>], []]) @ [''x'']
     = split_on terminator
         (concat [''ab'', ''c'' @ [terminator] @ ''de'', [terminator, terminator], ''x''])"
proof -
  have r: "run_polls 1 (attach 1) []
       [''ab'', ''c'' @ [terminator] @ ''de'', [terminator, terminator], ''x'']
     = ([[], [\<lparr>raw = ''abc'', start = 0, stop = 4\<rparr>],
         [\<lparr>raw = ''de'', start = 4, stop = 7\<rparr>, \<lparr>raw = [], start = 7, stop = 8\<rparr>], []],
        \<lparr>watermark = \<lparr>identity = 1, offset = 8\<rparr>, fragment = ''x''\<rparr>)"
    by (simp add: attach_def poll_def rotated_def terminator_def Let_def)
  show ?thesis using r tail_delivers_content_once[OF r] by simp
qed

subsection \<open>The watermark\<close>

text \<open>
  Claim C4. After any poll, from any state of the tail buffer and on any file, the
  watermark offset is at most the size of the file the poll saw. The offset decreases
  only when the poll detected a rotation (the identity changed, or the file is shorter
  than the stored offset); a detected rotation sets the offset to 0, discards the
  buffered partial line and delivers nothing.
\<close>

theorem watermark_bounded_and_monotone:
  assumes "poll tb f = (ls, tb')"
  shows "offset (watermark tb') \<le> length (content f)
       \<and> (offset (watermark tb') < offset (watermark tb) \<longrightarrow> rotated tb f)
       \<and> (rotated tb f \<longrightarrow> offset (watermark tb') = 0 \<and> fragment tb' = [] \<and> ls = [])
       \<and> (rotated tb f \<longleftrightarrow>
            fid f \<noteq> identity (watermark tb) \<or> length (content f) < offset (watermark tb))"
proof (cases "rotated tb f")
  case True
  with assms show ?thesis by (auto simp: poll_def rotated_def)
next
  case False
  let ?wm = "offset (watermark tb)"
  let ?new = "drop ?wm (content f)"
  have le: "?wm \<le> length (content f)" using False by (simp add: rotated_def)
  have "length (snd (scan ?wm [] ?new)) \<le> length ?new"
    using scan_snd_length[of ?wm "[]" ?new] by simp
  moreover have "offset (watermark tb') = ?wm + (length ?new - length (snd (scan ?wm [] ?new)))"
    using assms False by (auto simp: poll_def Let_def split_def)
  ultimately show ?thesis using False le by (auto simp: rotated_def)
qed

theorem watermark_bounded_and_monotone_witness:
  "poll \<lparr>watermark = \<lparr>identity = 1, offset = 5\<rparr>, fragment = ''ab''\<rparr> \<lparr>fid = 1, content = ''ab''\<rparr>
     = ([], \<lparr>watermark = \<lparr>identity = 1, offset = 0\<rparr>, fragment = []\<rparr>)
   \<and> rotated \<lparr>watermark = \<lparr>identity = 1, offset = 5\<rparr>, fragment = ''ab''\<rparr> \<lparr>fid = 1, content = ''ab''\<rparr>
   \<and> offset (watermark \<lparr>watermark = \<lparr>identity = 1, offset = 0\<rparr>, fragment = []\<rparr>)
       \<le> length (content \<lparr>fid = 1, content = ''ab''\<rparr>)"
proof -
  have p: "poll \<lparr>watermark = \<lparr>identity = 1, offset = 5\<rparr>, fragment = ''ab''\<rparr> \<lparr>fid = 1, content = ''ab''\<rparr>
     = ([], \<lparr>watermark = \<lparr>identity = 1, offset = 0\<rparr>, fragment = []\<rparr>)"
    by (simp add: poll_def rotated_def)
  show ?thesis using p watermark_bounded_and_monotone[OF p] by simp
qed

end
